theory Spec2Isabelle
  imports Main
begin

section \<open>Python values, the object store and the client\<close>

text \<open>
  \<^verbatim>\<open>sentences2trees\<close> receives a Python object. Lists are mutable objects that the caller
  and the callee share by reference, so a list value is an address into a store of list
  objects; strings are immutable and are values. A Python \<^verbatim>\<open>str\<close> is modelled as a
  \<^typ>\<open>string\<close> whose characters are the code points below 256.
\<close>

type_synonym addr = nat

datatype pyval = PNone | PInt int | PStr string | PList addr

text \<open>
  The state a call can read and write: the list objects, the next unused address, the
  field \<^verbatim>\<open>self.service_url\<close> of the client, and the URLs handed to \<^verbatim>\<open>urlopen\<close>
  so far (oldest first).
\<close>

record state =
  heap :: "addr \<Rightarrow> pyval list"
  nxt :: addr
  service_url :: string
  requests :: "string list"

text \<open>Exceptions that leave \<^verbatim>\<open>sentences2trees\<close>.\<close>

datatype error =
    ValueError_not_tokenised
  | ValueError_not_untokenised
  | ValueError_blank nat
  | WebParseError string int
  | IndexError
  | UnboundLocalError
  | Other string

text \<open>
  What \<^verbatim>\<open>with urlopen(url) as f: data = json.load(f)\<close> does: it raises
  \<^verbatim>\<open>HTTPError\<close> with a status code, raises some other exception (one that
  \<^verbatim>\<open>except Exception\<close> catches, named by a string), or binds the decoded document.
\<close>

datatype 'j fetched = Raises_HTTPError int | Raises string | Loaded 'j

text \<open>
  The collaborators that are not part of the module: \<^verbatim>\<open>urllib.parse.urlencode\<close> (applied
  to a dictionary, given as its items), the network together with \<^verbatim>\<open>json.load\<close>, and
  \<^verbatim>\<open>CCGTree.from_json\<close>, which may raise.
\<close>

record ('j, 't) env =
  urlencode :: "(string \<times> string) list \<Rightarrow> string"
  urlopen_json :: "string \<Rightarrow> 'j fetched"
  from_json :: "'j \<Rightarrow> string + 't"

definition SERVICE_URL :: string where
  "SERVICE_URL = ''https://cqc.pythonanywhere.com/tree/json''"

text \<open>\<^verbatim>\<open>WebParser.__init__\<close>: the only assignment to \<^verbatim>\<open>self.service_url\<close>.\<close>

definition init :: "string \<Rightarrow> state \<Rightarrow> state" where
  "init url s = s\<lparr>service_url := url\<rparr>"

section \<open>Strings\<close>

text \<open>\<^verbatim>\<open>str.isspace\<close> on the code points below 256.\<close>

definition isspace :: "char \<Rightarrow> bool" where
  "isspace c = (let n = (of_char c :: nat)
     in (9 \<le> n \<and> n \<le> 13) \<or> (28 \<le> n \<and> n \<le> 32) \<or> n = 133 \<or> n = 160)"

text \<open>
  \<^verbatim>\<open>s.split()\<close>: the maximal runs of non-whitespace characters, in order. The first
  argument is the word read so far.
\<close>

fun split_from :: "string \<Rightarrow> string \<Rightarrow> string list" where
  "split_from w [] = (if w = [] then [] else [w])"
| "split_from w (c # cs) =
     (if isspace c then (if w = [] then split_from [] cs else w # split_from [] cs)
      else split_from (w @ [c]) cs)"

definition str_split :: "string \<Rightarrow> string list" where
  "str_split s = split_from [] s"

text \<open>\<^verbatim>\<open>' '.join(ws)\<close>.\<close>

fun str_join :: "string list \<Rightarrow> string" where
  "str_join [] = []"
| "str_join [w] = w"
| "str_join (w # v # ws) = w @ CHR '' '' # str_join (v # ws)"

section \<open>Type checks (core/utils.py)\<close>

definition isinstance_str :: "pyval \<Rightarrow> bool" where
  "isinstance_str v = (case v of PStr _ \<Rightarrow> True | _ \<Rightarrow> False)"

definition tokenised_sentence_type_check :: "(addr \<Rightarrow> pyval list) \<Rightarrow> pyval \<Rightarrow> bool" where
  "tokenised_sentence_type_check h sentence =
     (case sentence of PList a \<Rightarrow> list_all isinstance_str (h a) | _ \<Rightarrow> False)"

definition untokenised_batch_type_check :: "(addr \<Rightarrow> pyval list) \<Rightarrow> pyval \<Rightarrow> bool" where
  "untokenised_batch_type_check h sentence =
     (case sentence of PList a \<Rightarrow> list_all isinstance_str (h a) | _ \<Rightarrow> False)"

definition tokenised_batch_type_check :: "(addr \<Rightarrow> pyval list) \<Rightarrow> pyval \<Rightarrow> bool" where
  "tokenised_batch_type_check h batch =
     (case batch of PList a \<Rightarrow> list_all (tokenised_sentence_type_check h) (h a) | _ \<Rightarrow> False)"

section \<open>The parser client (ccg2discocat/web\_parser.py)\<close>

text \<open>
  Reading the items of a list object. Both functions are applied to values that have
  passed a type check only; the other cases are never reached.
\<close>

fun str_of :: "pyval \<Rightarrow> string" where
  "str_of (PStr s) = s"
| "str_of _ = []"

definition items :: "(addr \<Rightarrow> pyval list) \<Rightarrow> pyval \<Rightarrow> pyval list" where
  "items h v = (case v of PList a \<Rightarrow> h a | _ \<Rightarrow> [])"

text \<open>A list display or comprehension creates a new list object.\<close>

definition new_list :: "pyval list \<Rightarrow> state \<Rightarrow> addr \<times> state" where
  "new_list xs s = (nxt s, s\<lparr>heap := (heap s)(nxt s := xs), nxt := Suc (nxt s)\<rparr>)"

text \<open>
  Lines 90 to 102: the type check and the rebinding of \<^verbatim>\<open>sentences\<close> to a new list of
  strings. The result is the address the name \<^verbatim>\<open>sentences\<close> is bound to afterwards.
\<close>

definition normalise :: "bool \<Rightarrow> pyval \<Rightarrow> state \<Rightarrow> (error + addr) \<times> state" where
  "normalise tokenised sentences s =
     (if tokenised then
        (if \<not> tokenised_batch_type_check (heap s) sentences
         then (Inl ValueError_not_tokenised, s)
         else (case new_list (map (\<lambda>sentence. PStr (str_join (map str_of (items (heap s) sentence))))
                                 (items (heap s) sentences)) s of
                 (a, s1) \<Rightarrow> (Inr a, s1)))
      else
        (if \<not> untokenised_batch_type_check (heap s) sentences
         then (Inl ValueError_not_untokenised, s)
         else (case new_list (map (\<lambda>x. PStr (str_of x)) (items (heap s) sentences)) s of
                 (sent_list, s1) \<Rightarrow>
                   (case new_list (map (\<lambda>sentence. PStr (str_join (str_split (str_of sentence))))
                                       (heap s1 sent_list)) s1 of
                      (a, s2) \<Rightarrow> (Inr a, s2)))))"

text \<open>
  Lines 103 to 109: the loop over \<^verbatim>\<open>enumerate(sentences)\<close>. It returns
  \<^verbatim>\<open>empty_indices\<close> and the value the loop variable \<^verbatim>\<open>sentence\<close> is left bound to
  (\<open>None\<close> when the loop body never ran).
\<close>

fun find_empty ::
  "bool \<Rightarrow> nat \<Rightarrow> string list \<Rightarrow> nat list \<Rightarrow> string option \<Rightarrow> error + nat list \<times> string option"
where
  "find_empty suppress_exceptions i [] empty_indices sentence = Inr (empty_indices, sentence)"
| "find_empty suppress_exceptions i (x # xs) empty_indices sentence =
     (if x = [] then
        (if suppress_exceptions
         then find_empty suppress_exceptions (Suc i) xs (empty_indices @ [i]) (Some x)
         else Inl (ValueError_blank i))
      else find_empty suppress_exceptions (Suc i) xs empty_indices (Some x))"

text \<open>Lines 111 and 112: \<^verbatim>\<open>del sentences[i]\<close> acts on the object \<^verbatim>\<open>sentences\<close> is bound to.\<close>

definition del_item :: "addr \<Rightarrow> nat \<Rightarrow> state \<Rightarrow> (error + unit) \<times> state" where
  "del_item a i s =
     (let xs = heap s a
      in if i < length xs
         then (Inr (), s\<lparr>heap := (heap s)(a := take i xs @ drop (Suc i) xs)\<rparr>)
         else (Inl IndexError, s))"

fun del_loop :: "addr \<Rightarrow> nat list \<Rightarrow> state \<Rightarrow> (error + unit) \<times> state" where
  "del_loop a [] s = (Inr (), s)"
| "del_loop a (i # is) s =
     (case del_item a i s of
        (Inl e, s1) \<Rightarrow> (Inl e, s1)
      | (Inr u, s1) \<Rightarrow> del_loop a is s1)"

text \<open>Lines 116 and 117.\<close>

definition request_url :: "('j, 't) env \<Rightarrow> string \<Rightarrow> string \<Rightarrow> string" where
  "request_url env url sent = url @ ''?'' @ urlencode env [(''sentence'', sent)]"

text \<open>
  Lines 119 to 133: the \<^verbatim>\<open>try\<close> statement, as a function of what the request did. The
  \<^verbatim>\<open>else\<close> branch is outside the handlers, so an exception of \<^verbatim>\<open>CCGTree.from_json\<close>
  leaves the function whatever \<^verbatim>\<open>suppress_exceptions\<close> is. The error raised on line 126
  is built from \<^verbatim>\<open>sentence\<close>, the variable of the loop of line 104.
\<close>

definition handle :: "('j, 't) env \<Rightarrow> bool \<Rightarrow> string option \<Rightarrow> 'j fetched \<Rightarrow> error + 't option" where
  "handle env suppress_exceptions sentence r =
     (case r of
        Raises_HTTPError code \<Rightarrow>
          (if suppress_exceptions then Inr None
           else (case sentence of
                   None \<Rightarrow> Inl UnboundLocalError
                 | Some x \<Rightarrow> Inl (WebParseError x code)))
      | Raises e \<Rightarrow> (if suppress_exceptions then Inr None else Inl (Other e))
      | Loaded data \<Rightarrow>
          (case from_json env data of
             Inl e \<Rightarrow> Inl (Other e)
           | Inr tree \<Rightarrow> Inr (Some tree)))"

text \<open>Lines 114 to 134: one request per remaining sentence, in order.\<close>

fun request_loop ::
  "('j, 't) env \<Rightarrow> bool \<Rightarrow> string option \<Rightarrow> string list \<Rightarrow> 't option list \<Rightarrow> state
     \<Rightarrow> (error + 't option list) \<times> state"
where
  "request_loop env suppress_exceptions sentence [] trees s = (Inr trees, s)"
| "request_loop env suppress_exceptions sentence (sent # rest) trees s =
     (let url = request_url env (service_url s) sent;
          s1 = s\<lparr>requests := requests s @ [url]\<rparr>
      in case handle env suppress_exceptions sentence (urlopen_json env url) of
           Inl e \<Rightarrow> (Inl e, s1)
         | Inr tree \<Rightarrow> request_loop env suppress_exceptions sentence rest (trees @ [tree]) s1)"

text \<open>
  Lines 136 and 137: \<^verbatim>\<open>trees.insert(i, None)\<close>. An index past the end appends, which
  is what \<open>take\<close> and \<open>drop\<close> do.
\<close>

definition list_insert :: "nat \<Rightarrow> 'a \<Rightarrow> 'a list \<Rightarrow> 'a list" where
  "list_insert i x xs = take i xs @ x # drop i xs"

fun insert_loop :: "nat list \<Rightarrow> 'a option list \<Rightarrow> 'a option list" where
  "insert_loop [] trees = trees"
| "insert_loop (i # is) trees = insert_loop is (list_insert i None trees)"

text \<open>\<^verbatim>\<open>WebParser.sentences2trees\<close>.\<close>

definition sentences2trees ::
  "('j, 't) env \<Rightarrow> pyval \<Rightarrow> bool \<Rightarrow> bool \<Rightarrow> state \<Rightarrow> (error + 't option list) \<times> state"
where
  "sentences2trees env sentences suppress_exceptions tokenised s =
     (case normalise tokenised sentences s of
        (Inl e, s1) \<Rightarrow> (Inl e, s1)
      | (Inr a, s1) \<Rightarrow>
          (case find_empty suppress_exceptions 0 (map str_of (heap s1 a)) [] None of
             Inl e \<Rightarrow> (Inl e, s1)
           | Inr (empty_indices, sentence) \<Rightarrow>
               (case del_loop a (rev empty_indices) s1 of
                  (Inl e, s2) \<Rightarrow> (Inl e, s2)
                | (Inr u, s2) \<Rightarrow>
                    (case request_loop env suppress_exceptions sentence
                            (map str_of (heap s2 a)) [] s2 of
                       (Inl e, s3) \<Rightarrow> (Inl e, s3)
                     | (Inr trees, s3) \<Rightarrow> (Inr (insert_loop empty_indices trees), s3)))))"

section \<open>Notions used in the statements\<close>

text \<open>
  The strings the name \<^verbatim>\<open>sentences\<close> stands for after line 102, one per sentence of
  the batch, and the type check that guards them.
\<close>

definition normalised :: "bool \<Rightarrow> (addr \<Rightarrow> pyval list) \<Rightarrow> pyval \<Rightarrow> string list" where
  "normalised tokenised h sentences =
     (if tokenised
      then map (\<lambda>sentence. str_join (map str_of (items h sentence))) (items h sentences)
      else map (\<lambda>x. str_join (str_split (str_of x))) (items h sentences))"

definition shape_ok :: "bool \<Rightarrow> (addr \<Rightarrow> pyval list) \<Rightarrow> pyval \<Rightarrow> bool" where
  "shape_ok tokenised h sentences =
     (if tokenised then tokenised_batch_type_check h sentences
      else untokenised_batch_type_check h sentences)"

text \<open>
  The positions of the empty strings of a list, counted from \<open>i\<close>; the value of the
  variable \<^verbatim>\<open>sentence\<close> after a loop over a list; and what the \<^verbatim>\<open>try\<close> statement makes
  of the request for one sentence.
\<close>

fun blank_positions :: "nat \<Rightarrow> string list \<Rightarrow> nat list" where
  "blank_positions i [] = []"
| "blank_positions i (x # xs) =
     (if x = [] then i # blank_positions (Suc i) xs else blank_positions (Suc i) xs)"

definition last_bound :: "string option \<Rightarrow> string list \<Rightarrow> string option" where
  "last_bound sentence xs = (if xs = [] then sentence else Some (last xs))"

definition outcome :: "('j, 't) env \<Rightarrow> bool \<Rightarrow> string option \<Rightarrow> string \<Rightarrow> string \<Rightarrow> error + 't option" where
  "outcome env suppress_exceptions sentence url sent =
     handle env suppress_exceptions sentence (urlopen_json env (request_url env url sent))"

text \<open>
  The two ways a request can go: it fails (an HTTP error status, or any other exception
  of \<^verbatim>\<open>urlopen\<close> or \<^verbatim>\<open>json.load\<close>), or it yields a document; in the second case
  \<^verbatim>\<open>CCGTree.from_json\<close> may or may not build a tree from it.
\<close>

definition request_fails :: "('j, 't) env \<Rightarrow> string \<Rightarrow> string \<Rightarrow> bool" where
  "request_fails env url sent =
     (case urlopen_json env (request_url env url sent) of
        Loaded d \<Rightarrow> False
      | _ \<Rightarrow> True)"

definition tree_obtained :: "('j, 't) env \<Rightarrow> string \<Rightarrow> string \<Rightarrow> bool" where
  "tree_obtained env url sent =
     (case urlopen_json env (request_url env url sent) of
        Loaded d \<Rightarrow> (case from_json env d of Inl e \<Rightarrow> False | Inr t \<Rightarrow> True)
      | _ \<Rightarrow> False)"

text \<open>
  A whitespace-collapsed string: it neither starts nor ends with a whitespace character
  and has no two whitespace characters in a row. A word is a non-empty string without
  whitespace.
\<close>

fun no_ws_run :: "string \<Rightarrow> bool" where
  "no_ws_run (c # d # cs) = (\<not> (isspace c \<and> isspace d) \<and> no_ws_run (d # cs))"
| "no_ws_run cs = True"

definition ws_collapsed :: "string \<Rightarrow> bool" where
  "ws_collapsed s = ((s = [] \<or> (\<not> isspace (hd s) \<and> \<not> isspace (last s))) \<and> no_ws_run s)"

definition is_word :: "string \<Rightarrow> bool" where
  "is_word w = (w \<noteq> [] \<and> list_all (\<lambda>c. \<not> isspace c) w)"

section \<open>A client and a service for the examples\<close>

text \<open>
  A stand-in for \<^verbatim>\<open>urlencode\<close> that writes \<open>key=value\<close> and turns each space into
  \<open>+\<close>, as \<^verbatim>\<open>urllib\<close> does for values made of letters and spaces.
\<close>

definition example_urlencode :: "(string \<times> string) list \<Rightarrow> string" where
  "example_urlencode kv =
     concat (map (\<lambda>(k, v). k @ ''='' @ map (\<lambda>c. if c = CHR '' '' then CHR ''+'' else c) v) kv)"

text \<open>
  A service that answers status 500 for the sentence \<open>bad\<close>, is unreachable for
  \<open>down\<close>, and otherwise sends the URL back as the document; \<^verbatim>\<open>from_json\<close> rejects
  the document for \<open>odd\<close> and otherwise takes the document as the tree.
\<close>

definition example_env :: "(string, string) env" where
  "example_env =
     \<lparr>urlencode = example_urlencode,
      urlopen_json = (\<lambda>u. if u = ''S?sentence=bad'' then Raises_HTTPError 500
                          else if u = ''S?sentence=down'' then Raises ''URLError''
                          else Loaded u),
      from_json = (\<lambda>d. if d = ''S?sentence=odd'' then Inl ''KeyError'' else Inr d)\<rparr>"

text \<open>The same service, except that it answers every request with status 404.\<close>

definition other_env :: "(string, string) env" where
  "other_env = example_env\<lparr>urlopen_json := (\<lambda>u. if u = ''S?sentence=hello'' then Loaded u
                                                 else Raises_HTTPError 404)\<rparr>"

text \<open>
  A store with the batches of the examples: at 0 \<^verbatim>\<open>["", "hello"]\<close>, at 1
  \<^verbatim>\<open>["  I   like   tea  "]\<close>, at 2 \<^verbatim>\<open>[["I", "like", "tea"]]\<close>, at 4
  \<^verbatim>\<open>["bad", "hello"]\<close>, at 5 \<^verbatim>\<open>[[" "], ["a  b"]]\<close>, at 8
  \<^verbatim>\<open>["", "bad", " ", "hello"]\<close>, at 9 \<^verbatim>\<open>["hello", "down", "tea"]\<close>.
\<close>

definition example_state :: state where
  "example_state =
     \<lparr>heap = (\<lambda>a. [])
        (0 := [PStr '''', PStr ''hello''],
         1 := [PStr ''  I   like   tea  ''],
         2 := [PList 3],
         3 := [PStr ''I'', PStr ''like'', PStr ''tea''],
         4 := [PStr ''bad'', PStr ''hello''],
         5 := [PList 6, PList 7],
         6 := [PStr '' ''],
         7 := [PStr ''a  b''],
         8 := [PStr '''', PStr ''bad'', PStr '' '', PStr ''hello''],
         9 := [PStr ''hello'', PStr ''down'', PStr ''tea'']),
      nxt = 10,
      service_url = ''S'',
      requests = []\<rparr>"

text \<open>The same store with the batch \<^verbatim>\<open>["bad", "odd", "tea"]\<close> at 9.\<close>

definition odd_state :: state where
  "odd_state =
     example_state\<lparr>heap := (heap example_state)(9 := [PStr ''bad'', PStr ''odd'', PStr ''tea''])\<rparr>"

text \<open>The same store with the tokens \<^verbatim>\<open>["I", "like", "New York"]\<close> at 3.\<close>

definition city_state :: state where
  "city_state =
     example_state\<lparr>heap := (heap example_state)(3 := [PStr ''I'', PStr ''like'', PStr ''New York''])\<rparr>"

section \<open>The loops\<close>

lemma normalise_shape_ok:
  assumes "shape_ok tokenised (heap s) sentences"
  shows "\<exists>a s1. normalise tokenised sentences s = (Inr a, s1) \<and> nxt s \<le> a
           \<and> heap s1 a = map PStr (normalised tokenised (heap s) sentences)
           \<and> (\<forall>b<nxt s. heap s1 b = heap s b)
           \<and> service_url s1 = service_url s \<and> requests s1 = requests s"
  using assms
  by (cases tokenised) (simp_all add: shape_ok_def normalise_def new_list_def normalised_def comp_def)

lemma normalise_shape_bad:
  assumes "\<not> shape_ok tokenised (heap s) sentences"
  shows "normalise tokenised sentences s =
           (Inl (if tokenised then ValueError_not_tokenised else ValueError_not_untokenised), s)"
  using assms by (cases tokenised) (simp_all add: shape_ok_def normalise_def)

lemma find_empty_no_raise:
  "suppress_exceptions \<or> [] \<notin> set xs \<Longrightarrow>
     find_empty suppress_exceptions i xs acc sentence =
       Inr (acc @ blank_positions i xs, last_bound sentence xs)"
  by (induction xs arbitrary: i acc sentence) (auto simp: last_bound_def)

lemma find_empty_raise:
  "[] \<in> set xs \<Longrightarrow>
     find_empty False i xs acc sentence =
       Inl (ValueError_blank (i + length (takeWhile (\<lambda>x. x \<noteq> []) xs)))"
  by (induction xs arbitrary: i acc sentence) auto

lemma del_loop_append:
  "del_loop a (is @ js) s =
     (case del_loop a is s of (Inl e, s1) \<Rightarrow> (Inl e, s1) | (Inr u, s1) \<Rightarrow> del_loop a js s1)"
  by (induction "is" arbitrary: s) (auto split: prod.splits sum.splits)

lemma del_item_upd:
  "i < length ys \<Longrightarrow>
     del_item a i (s\<lparr>heap := (heap s)(a := ys)\<rparr>) =
       (Inr (), s\<lparr>heap := (heap s)(a := take i ys @ drop (Suc i) ys)\<rparr>)"
  by (auto simp: del_item_def fun_eq_iff intro!: state.equality)

lemma del_loop_blank:
  "heap s a = map PStr (pre @ xs) \<Longrightarrow>
     del_loop a (rev (blank_positions (length pre) xs)) s =
       (Inr (), s\<lparr>heap := (heap s)(a := map PStr (pre @ filter (\<lambda>x. x \<noteq> []) xs))\<rparr>)"
proof (induction xs arbitrary: pre)
  case Nil
  then show ?case by (simp add: fun_upd_idem)
next
  case (Cons x xs)
  have h: "heap s a = map PStr ((pre @ [x]) @ xs)"
    using Cons.prems by simp
  have ih: "del_loop a (rev (blank_positions (Suc (length pre)) xs)) s =
       (Inr (), s\<lparr>heap := (heap s)(a := map PStr (pre @ x # filter (\<lambda>x. x \<noteq> []) xs))\<rparr>)"
    using Cons.IH [OF h]
    by (simp only: length_append_singleton append_assoc append_Cons append_Nil)
  show ?case
  proof (cases "x = []")
    case True
    then show ?thesis
      by (auto simp: del_loop_append ih del_item_upd fun_eq_iff intro!: state.equality)
  next
    case False
    then show ?thesis
      by (auto simp: ih fun_eq_iff intro!: state.equality)
  qed
qed

lemma request_loop_returns:
  "request_loop env suppress sentence sents trees s = (Inr out, s') \<Longrightarrow>
     map Inr out = map Inr trees @ map (outcome env suppress sentence (service_url s)) sents
       \<and> s' = s\<lparr>requests := requests s @ map (request_url env (service_url s)) sents\<rparr>"
proof (induction sents arbitrary: trees s)
  case Nil
  then show ?case by simp
next
  case (Cons sent rest)
  define s1 where "s1 = s\<lparr>requests := requests s @ [request_url env (service_url s) sent]\<rparr>"
  from Cons.prems obtain t where
    t: "outcome env suppress sentence (service_url s) sent = Inr t" and
    r: "request_loop env suppress sentence rest (trees @ [t]) s1 = (Inr out, s')"
    by (auto simp: Let_def outcome_def s1_def split: sum.splits)
  from Cons.IH [OF r] t show ?case
    by (simp add: s1_def)
qed

lemma request_loop_all:
  "\<forall>sent\<in>set sents. outcome env suppress sentence (service_url s) sent = Inr (g sent) \<Longrightarrow>
     request_loop env suppress sentence sents trees s =
       (Inr (trees @ map g sents),
        s\<lparr>requests := requests s @ map (request_url env (service_url s)) sents\<rparr>)"
  by (induction sents arbitrary: trees s) (auto simp: Let_def outcome_def)

lemma request_loop_first_failure:
  "\<forall>sent\<in>set pre. \<exists>t. outcome env suppress sentence (service_url s) sent = Inr t \<Longrightarrow>
   outcome env suppress sentence (service_url s) x = Inl e \<Longrightarrow>
     request_loop env suppress sentence (pre @ x # post) trees s =
       (Inl e, s\<lparr>requests := requests s @ map (request_url env (service_url s)) (pre @ [x])\<rparr>)"
  by (induction pre arbitrary: trees s) (auto simp: Let_def outcome_def)

lemma insert_loop_blank:
  "insert_loop (blank_positions (length pre) xs) (pre @ map f (filter (\<lambda>x. x \<noteq> []) xs)) =
     pre @ map (\<lambda>x. if x = [] then None else f x) xs"
proof (induction xs arbitrary: pre)
  case Nil
  then show ?case by simp
next
  case (Cons x xs)
  show ?case
  proof (cases "x = []")
    case True
    then show ?thesis
      using Cons.IH [of "pre @ [None]"] by (simp add: list_insert_def)
  next
    case False
    then show ?thesis
      using Cons.IH [of "pre @ [f x]"] by simp
  qed
qed


lemma sentences2trees_run:
  assumes ok: "shape_ok tokenised (heap s) sentences"
    and nb: "suppress \<or> [] \<notin> set (normalised tokenised (heap s) sentences)"
  shows "\<exists>s2. service_url s2 = service_url s \<and> requests s2 = requests s \<and>
     sentences2trees env sentences suppress tokenised s =
       (case request_loop env suppress
               (last_bound None (normalised tokenised (heap s) sentences))
               (filter (\<lambda>x. x \<noteq> []) (normalised tokenised (heap s) sentences)) [] s2 of
          (Inl e, s3) \<Rightarrow> (Inl e, s3)
        | (Inr trees, s3) \<Rightarrow>
            (Inr (insert_loop (blank_positions 0 (normalised tokenised (heap s) sentences)) trees),
             s3))"
proof -
  let ?norm = "normalised tokenised (heap s) sentences"
  from normalise_shape_ok [OF ok] obtain a s1 where
    n: "normalise tokenised sentences s = (Inr a, s1)" and
    h1: "heap s1 a = map PStr ?norm" and
    u1: "service_url s1 = service_url s" and r1: "requests s1 = requests s"
    by blast
  have strs: "map str_of (heap s1 a) = ?norm"
    by (simp add: h1 comp_def)
  have fe: "find_empty suppress 0 ?norm [] None =
      Inr (blank_positions 0 ?norm, last_bound None ?norm)"
    using find_empty_no_raise [OF nb, of 0 "[]" None] by simp
  define s2 where "s2 = s1\<lparr>heap := (heap s1)(a := map PStr (filter (\<lambda>x. x \<noteq> []) ?norm))\<rparr>"
  have dl: "del_loop a (rev (blank_positions 0 ?norm)) s1 = (Inr (), s2)"
    using del_loop_blank [of s1 a "[]" ?norm] h1 by (simp add: s2_def)
  have strs2: "map str_of (heap s2 a) = filter (\<lambda>x. x \<noteq> []) ?norm"
    by (simp add: s2_def comp_def)
  have "sentences2trees env sentences suppress tokenised s =
       (case request_loop env suppress (last_bound None ?norm)
               (filter (\<lambda>x. x \<noteq> []) ?norm) [] s2 of
          (Inl e, s3) \<Rightarrow> (Inl e, s3)
        | (Inr trees, s3) \<Rightarrow> (Inr (insert_loop (blank_positions 0 ?norm) trees), s3))"
    by (simp add: sentences2trees_def n strs fe dl strs2)
  moreover have "service_url s2 = service_url s" "requests s2 = requests s"
    by (simp_all add: s2_def u1 r1)
  ultimately show ?thesis by blast
qed

lemma sentences2trees_blank_raise:
  assumes ok: "shape_ok tokenised (heap s) sentences"
    and b: "[] \<in> set (normalised tokenised (heap s) sentences)"
  shows "\<exists>s1. requests s1 = requests s \<and>
     sentences2trees env sentences False tokenised s =
       (Inl (ValueError_blank
          (length (takeWhile (\<lambda>x. x \<noteq> []) (normalised tokenised (heap s) sentences)))), s1)"
proof -
  let ?norm = "normalised tokenised (heap s) sentences"
  from normalise_shape_ok [OF ok] obtain a s1 where
    n: "normalise tokenised sentences s = (Inr a, s1)" and
    h1: "heap s1 a = map PStr ?norm" and r1: "requests s1 = requests s"
    by blast
  have strs: "map str_of (heap s1 a) = ?norm"
    by (simp add: h1 comp_def)
  show ?thesis
    using find_empty_raise [OF b, of 0 "[]" None] r1
    by (simp add: sentences2trees_def n strs)
qed

lemma sentences2trees_shape_bad:
  "\<not> shape_ok tokenised (heap s) sentences \<Longrightarrow>
     sentences2trees env sentences suppress tokenised s =
       (Inl (if tokenised then ValueError_not_tokenised else ValueError_not_untokenised), s)"
  by (simp add: sentences2trees_def normalise_shape_bad)

lemma sentences2trees_returns:
  assumes ret: "sentences2trees env sentences suppress tokenised s = (Inr out, s')"
  shows "shape_ok tokenised (heap s) sentences
     \<and> map Inr out =
         map (\<lambda>x. if x = [] then Inr None
                  else outcome env suppress
                         (last_bound None (normalised tokenised (heap s) sentences))
                         (service_url s) x)
           (normalised tokenised (heap s) sentences)
     \<and> requests s' = requests s @ map (request_url env (service_url s))
         (filter (\<lambda>x. x \<noteq> []) (normalised tokenised (heap s) sentences))"
proof -
  let ?norm = "normalised tokenised (heap s) sentences"
  let ?ne = "filter (\<lambda>x. x \<noteq> []) ?norm"
  define f where "f = outcome env suppress (last_bound None ?norm) (service_url s)"
  define g where "g = (\<lambda>x. case f x of Inl e \<Rightarrow> None | Inr t \<Rightarrow> t)"
  have ok: "shape_ok tokenised (heap s) sentences"
    using ret sentences2trees_shape_bad [of tokenised s sentences env suppress]
    by (cases "shape_ok tokenised (heap s) sentences") auto
  have nb: "suppress \<or> [] \<notin> set ?norm"
    using ret sentences2trees_blank_raise [OF ok, of env]
    by (cases suppress) auto
  from sentences2trees_run [OF ok nb, of env] obtain s2 where
    u2: "service_url s2 = service_url s" and r2: "requests s2 = requests s" and
    run: "sentences2trees env sentences suppress tokenised s =
       (case request_loop env suppress (last_bound None ?norm) ?ne [] s2 of
          (Inl e, s3) \<Rightarrow> (Inl e, s3)
        | (Inr trees, s3) \<Rightarrow> (Inr (insert_loop (blank_positions 0 ?norm) trees), s3))"
    by blast
  from ret run obtain trees where
    rl: "request_loop env suppress (last_bound None ?norm) ?ne [] s2 = (Inr trees, s')" and
    out: "out = insert_loop (blank_positions 0 ?norm) trees"
    by (auto split: prod.splits sum.splits)
  from request_loop_returns [OF rl] have
    tr: "map Inr trees = map f ?ne" and
    s': "s' = s2\<lparr>requests := requests s2 @ map (request_url env (service_url s2)) ?ne\<rparr>"
    by (simp_all add: u2 f_def)
  have each: "f x = Inr (g x)" if "x \<in> set ?ne" for x
  proof -
    from that have "f x \<in> set (map f ?ne)" by simp
    then have "f x \<in> set (map Inr trees)" by (simp only: tr)
    then show ?thesis by (auto simp: g_def)
  qed
  have mf: "map f ?ne = map Inr (map g ?ne)"
    by (simp add: each)
  have trees: "trees = map g ?ne"
    using trans [OF tr mf] by (simp only: inj_map_eq_map [OF inj_Inr])
  have "out = map (\<lambda>x. if x = [] then None else g x) ?norm"
    using insert_loop_blank [where pre = "[]" and f = g and xs = ?norm] by (simp add: out trees)
  then have "map Inr out = map (\<lambda>x. if x = [] then Inr None else f x) ?norm"
    by (simp add: each)
  moreover have "requests s' = requests s @ map (request_url env (service_url s)) ?ne"
    by (simp add: s' u2 r2)
  ultimately show ?thesis using ok by (simp add: f_def)
qed

text \<open>The equations that evaluate a run on the examples.\<close>

lemmas run_defs = sentences2trees_def normalise_def tokenised_batch_type_check_def
  tokenised_sentence_type_check_def untokenised_batch_type_check_def isinstance_str_def
  new_list_def items_def str_split_def isspace_def del_item_def handle_def request_url_def
  example_env_def other_env_def example_urlencode_def example_state_def
  Let_def list_insert_def

lemmas example_defs = example_state_def example_env_def other_env_def example_urlencode_def
  request_url_def request_fails_def tree_obtained_def

section \<open>What a call leaves unchanged\<close>

lemma normalise_frame:
  "normalise tokenised sentences s = (r, s1) \<Longrightarrow>
     (\<forall>b<nxt s. heap s1 b = heap s b) \<and> service_url s1 = service_url s
       \<and> requests s1 = requests s \<and> (\<forall>a. r = Inr a \<longrightarrow> nxt s \<le> a)"
  by (cases tokenised) (auto simp: normalise_def new_list_def split: if_splits)

lemma del_item_frame:
  "del_item a i s = (r, s') \<Longrightarrow>
     (\<forall>b. b \<noteq> a \<longrightarrow> heap s' b = heap s b) \<and> service_url s' = service_url s
       \<and> requests s' = requests s"
  by (auto simp: del_item_def Let_def split: if_splits)

lemma del_loop_frame:
  "del_loop a is s = (r, s') \<Longrightarrow>
     (\<forall>b. b \<noteq> a \<longrightarrow> heap s' b = heap s b) \<and> service_url s' = service_url s
       \<and> requests s' = requests s"
proof (induction "is" arbitrary: s)
  case Nil
  then show ?case by simp
next
  case (Cons i "is")
  obtain r1 s1 where d: "del_item a i s = (r1, s1)" by force
  show ?case
  proof (cases r1)
    case (Inl e)
    with Cons.prems d del_item_frame [OF d] show ?thesis by simp
  next
    case (Inr u)
    with Cons.prems d have "del_loop a is s1 = (r, s')" by simp
    from Cons.IH [OF this] del_item_frame [OF d] show ?thesis by simp
  qed
qed

lemma request_loop_frame:
  "request_loop env suppress sentence sents trees s = (r, s') \<Longrightarrow>
     heap s' = heap s \<and> service_url s' = service_url s"
proof (induction sents arbitrary: trees s)
  case Nil
  then show ?case by simp
next
  case (Cons sent rest)
  define s1 where "s1 = s\<lparr>requests := requests s @ [request_url env (service_url s) sent]\<rparr>"
  show ?case
  proof (cases "handle env suppress sentence
                  (urlopen_json env (request_url env (service_url s) sent))")
    case (Inl e)
    with Cons.prems show ?thesis by (auto simp: Let_def)
  next
    case (Inr t)
    with Cons.prems have "request_loop env suppress sentence rest (trees @ [t]) s1 = (r, s')"
      by (simp add: Let_def s1_def)
    from Cons.IH [OF this] show ?thesis by (simp add: s1_def)
  qed
qed

section \<open>The type checks and the handlers\<close>

lemma isinstance_str_iff: "isinstance_str v \<longleftrightarrow> (\<exists>w. v = PStr w)"
  by (cases v) (simp_all add: isinstance_str_def)

lemma untokenised_batch_type_check_iff:
  "untokenised_batch_type_check h v \<longleftrightarrow>
     (\<exists>a. v = PList a \<and> (\<forall>x\<in>set (h a). \<exists>w. x = PStr w))"
  by (cases v) (simp_all add: untokenised_batch_type_check_def isinstance_str_iff list_all_iff)

lemma tokenised_sentence_type_check_iff:
  "tokenised_sentence_type_check h v \<longleftrightarrow>
     (\<exists>b. v = PList b \<and> (\<forall>t\<in>set (h b). \<exists>w. t = PStr w))"
  by (cases v) (simp_all add: tokenised_sentence_type_check_def isinstance_str_iff list_all_iff)

lemma tokenised_batch_type_check_iff:
  "tokenised_batch_type_check h v \<longleftrightarrow>
     (\<exists>a. v = PList a \<and>
        (\<forall>x\<in>set (h a). \<exists>b. x = PList b \<and> (\<forall>t\<in>set (h b). \<exists>w. t = PStr w)))"
  by (cases v)
     (simp_all add: tokenised_batch_type_check_def tokenised_sentence_type_check_iff list_all_iff)


section \<open>Failed requests\<close>

lemma outcome_fails_suppress:
  "request_fails env url x \<Longrightarrow> outcome env True sentence url x = Inr None"
  by (simp add: request_fails_def outcome_def handle_def split: fetched.splits)

lemma outcome_fails_raise:
  "request_fails env url x \<Longrightarrow>
     \<exists>e. outcome env False (Some w) url x = Inl e \<and>
       (case urlopen_json env (request_url env url x) of
          Raises_HTTPError c \<Rightarrow> e = WebParseError w c
        | Raises n \<Rightarrow> e = Other n
        | Loaded d \<Rightarrow> False)"
  by (simp add: request_fails_def outcome_def handle_def split: fetched.splits)

lemma outcome_fails_Inl:
  "request_fails env url x \<Longrightarrow> \<exists>e. outcome env False sentence url x = Inl e"
  by (simp add: request_fails_def outcome_def handle_def split: fetched.splits option.splits)

lemma outcome_tree_obtained:
  "tree_obtained env url x \<Longrightarrow> \<exists>t. outcome env suppress sentence url x = Inr t"
  by (simp add: tree_obtained_def outcome_def handle_def split: fetched.splits sum.splits)


lemma suppress_returns:
  assumes ok: "shape_ok tokenised (heap s) sentences"
    and acc: "\<forall>x\<in>set (normalised tokenised (heap s) sentences).
               x \<noteq> [] \<longrightarrow> tree_obtained env (service_url s) x \<or> request_fails env (service_url s) x"
  shows "\<exists>out s'. sentences2trees env sentences True tokenised s = (Inr out, s')"
proof -
  let ?norm = "normalised tokenised (heap s) sentences"
  let ?ne = "filter (\<lambda>x. x \<noteq> []) ?norm"
  define f where "f = outcome env True (last_bound None ?norm) (service_url s)"
  define g where "g = (\<lambda>x. case f x of Inl e \<Rightarrow> None | Inr t \<Rightarrow> t)"
  from sentences2trees_run [OF ok, of True env] obtain s2 where
    u2: "service_url s2 = service_url s" and
    run: "sentences2trees env sentences True tokenised s =
       (case request_loop env True (last_bound None ?norm) ?ne [] s2 of
          (Inl e, s3) \<Rightarrow> (Inl e, s3)
        | (Inr trees, s3) \<Rightarrow> (Inr (insert_loop (blank_positions 0 ?norm) trees), s3))"
    by auto
  have each: "\<forall>x\<in>set ?ne. outcome env True (last_bound None ?norm) (service_url s2) x = Inr (g x)"
  proof
    fix x assume "x \<in> set ?ne"
    with acc have "tree_obtained env (service_url s) x \<or> request_fails env (service_url s) x"
      by simp
    then have "\<exists>t. f x = Inr t"
      using outcome_tree_obtained [of env "service_url s" x True "last_bound None ?norm"]
        outcome_fails_suppress [of env "service_url s" x "last_bound None ?norm"]
      by (auto simp: f_def)
    then show "outcome env True (last_bound None ?norm) (service_url s2) x = Inr (g x)"
      by (auto simp: g_def f_def u2)
  qed
  from request_loop_all [OF each, of "[]"] run show ?thesis by simp
qed

lemma no_suppress_raises:
  assumes x: "x \<in> set (normalised tokenised (heap s) sentences)"
    and f: "request_fails env (service_url s) x"
  shows "\<exists>e s'. sentences2trees env sentences False tokenised s = (Inl e, s')"
proof (cases "fst (sentences2trees env sentences False tokenised s)")
  case (Inl e)
  then show ?thesis by (metis prod.collapse)
next
  case (Inr out)
  let ?norm = "normalised tokenised (heap s) sentences"
  define F where "F = (\<lambda>x. if x = [] then Inr None
      else outcome env False (last_bound None ?norm) (service_url s) x)"
  from Inr have ret: "sentences2trees env sentences False tokenised s =
      (Inr out, snd (sentences2trees env sentences False tokenised s))"
    by (simp add: prod_eq_iff)
  from sentences2trees_returns [OF ret] have
    ok: "shape_ok tokenised (heap s) sentences" and m: "map Inr out = map F ?norm"
    by (simp_all add: F_def)
  have nb: "[] \<notin> set ?norm"
    using sentences2trees_blank_raise [OF ok, of env] ret by auto
  from x have "F x \<in> set (map F ?norm)" by simp
  then have "F x \<in> set (map Inr out)" by (simp only: m)
  then obtain t where "F x = Inr t" by auto
  moreover from x nb have "x \<noteq> []" by auto
  ultimately have "outcome env False (last_bound None ?norm) (service_url s) x = Inr t"
    by (simp add: F_def)
  with outcome_fails_Inl [OF f, of "last_bound None ?norm"] show ?thesis by simp
qed

lemma first_failure_raises:
  assumes ok: "shape_ok tokenised (heap s) sentences"
    and nb: "[] \<notin> set (normalised tokenised (heap s) sentences)"
    and split: "normalised tokenised (heap s) sentences = pre @ x # post"
    and pre: "\<forall>y\<in>set pre. tree_obtained env (service_url s) y"
    and f: "request_fails env (service_url s) x"
  shows "\<exists>e s'. sentences2trees env sentences False tokenised s = (Inl e, s')
     \<and> requests s' = requests s @ map (request_url env (service_url s)) (pre @ [x])
     \<and> (case urlopen_json env (request_url env (service_url s) x) of
          Raises_HTTPError c \<Rightarrow> \<exists>w. e = WebParseError w c
        | Raises n \<Rightarrow> e = Other n
        | Loaded d \<Rightarrow> False)"
proof -
  let ?norm = "normalised tokenised (heap s) sentences"
  have ne: "filter (\<lambda>x. x \<noteq> []) ?norm = pre @ x # post"
    using nb split by (metis (mono_tags, lifting) filter_True)
  have lb: "last_bound None ?norm = Some (last ?norm)"
    by (simp add: last_bound_def split)
  from sentences2trees_run [OF ok, of False env] nb obtain s2 where
    u2: "service_url s2 = service_url s" and r2: "requests s2 = requests s" and
    run: "sentences2trees env sentences False tokenised s =
       (case request_loop env False (Some (last ?norm)) (pre @ x # post) [] s2 of
          (Inl e, s3) \<Rightarrow> (Inl e, s3)
        | (Inr trees, s3) \<Rightarrow> (Inr (insert_loop (blank_positions 0 ?norm) trees), s3))"
    by (auto simp only: ne lb)
  from outcome_fails_raise [OF f, of "last ?norm"] obtain e where
    e: "outcome env False (Some (last ?norm)) (service_url s2) x = Inl e" and
    k: "case urlopen_json env (request_url env (service_url s) x) of
          Raises_HTTPError c \<Rightarrow> e = WebParseError (last ?norm) c
        | Raises n \<Rightarrow> e = Other n
        | Loaded d \<Rightarrow> False"
    by (auto simp: u2)
  have p: "\<forall>y\<in>set pre. \<exists>t. outcome env False (Some (last ?norm)) (service_url s2) y = Inr t"
    using pre by (auto simp: u2 intro: outcome_tree_obtained)
  from request_loop_first_failure [OF p e, of post "[]"] run
  have "sentences2trees env sentences False tokenised s =
      (Inl e, s2\<lparr>requests := requests s2 @ map (request_url env (service_url s2)) (pre @ [x])\<rparr>)"
    by simp
  moreover from k have "case urlopen_json env (request_url env (service_url s) x) of
          Raises_HTTPError c \<Rightarrow> \<exists>w. e = WebParseError w c
        | Raises n \<Rightarrow> e = Other n
        | Loaded d \<Rightarrow> False"
    by (auto split: fetched.splits)
  ultimately show ?thesis by (simp add: u2 r2)
qed

section \<open>Runs against two services\<close>


section \<open>Splitting on whitespace and joining with spaces\<close>

lemma isspace_space: "isspace (CHR '' '')"
  by (simp add: isspace_def)

lemma split_from_words:
  "list_all (\<lambda>c. \<not> isspace c) w \<Longrightarrow> list_all is_word (split_from w cs)"
  by (induction cs arbitrary: w) (auto simp: is_word_def)

lemma split_from_Nil_iff:
  "split_from w cs = [] \<longleftrightarrow> w = [] \<and> list_all isspace cs"
  by (induction cs arbitrary: w) auto

lemma split_from_word:
  "list_all (\<lambda>c. \<not> isspace c) w \<Longrightarrow> split_from u (w @ cs) = split_from (u @ w) cs"
  by (induction w arbitrary: u) auto

lemma no_ws_run_word:
  "list_all (\<lambda>c. \<not> isspace c) w \<Longrightarrow> no_ws_run (w @ c # r) = no_ws_run (c # r)"
proof (induction w)
  case Nil
  then show ?case by simp
next
  case (Cons a w)
  then show ?case by (cases w) auto
qed

lemma no_ws_run_only_word: "list_all (\<lambda>c. \<not> isspace c) w \<Longrightarrow> no_ws_run w"
proof (induction w)
  case Nil
  then show ?case by simp
next
  case (Cons a w)
  then show ?case by (cases w) auto
qed

lemma str_join_words:
  "list_all is_word ws \<Longrightarrow>
     ws_collapsed (str_join ws) \<and> (str_join ws = [] \<longleftrightarrow> ws = [])
       \<and> split_from [] (str_join ws) = ws"
proof (induction ws rule: str_join.induct)
  case 1
  then show ?case by (simp add: ws_collapsed_def)
next
  case (2 w)
  then have w: "w \<noteq> []" "list_all (\<lambda>c. \<not> isspace c) w"
    by (simp_all add: is_word_def)
  have "\<not> isspace (hd w)" "\<not> isspace (last w)"
    using w by (auto simp: list_all_iff)
  moreover have "split_from [] w = [w]"
    using split_from_word [OF w(2), of "[]" "[]"] w(1) by simp
  ultimately show ?case
    using w by (simp add: ws_collapsed_def no_ws_run_only_word)
next
  case (3 w v ws)
  then have iw: "is_word w" and rest: "list_all is_word (v # ws)"
    by simp_all
  from iw have w: "w \<noteq> []" "list_all (\<lambda>c. \<not> isspace c) w"
    by (simp_all add: is_word_def)
  let ?J = "str_join (v # ws)"
  from 3 rest have J: "ws_collapsed ?J" "?J \<noteq> []" "split_from [] ?J = v # ws"
    by simp_all
  then obtain j js where j: "?J = j # js" by (cases ?J) auto
  from J(1) j have nj: "\<not> isspace j" "no_ws_run (j # js)" "\<not> isspace (last (j # js))"
    by (simp_all add: ws_collapsed_def)
  have hd: "\<not> isspace (hd w)"
    using w by (auto simp: list_all_iff)
  have a: "ws_collapsed (w @ CHR '' '' # j # js)"
    using w hd nj by (simp add: ws_collapsed_def no_ws_run_word)
  have "split_from [] (w @ CHR '' '' # j # js) = split_from w (CHR '' '' # j # js)"
    using split_from_word [OF w(2), of "[]"] by simp
  also have "\<dots> = w # split_from [] (j # js)"
    using w(1) by (simp add: isspace_space)
  finally have b: "split_from [] (w @ CHR '' '' # j # js) = w # v # ws"
    using J(3) j by simp
  from a b show ?case by (simp add: j)
qed

lemma collapse_collapsed:
  "ws_collapsed (str_join (str_split x))
     \<and> str_split (str_join (str_split x)) = str_split x
     \<and> (str_join (str_split x) = [] \<longleftrightarrow> list_all isspace x)"
  using str_join_words [OF split_from_words [of "[]" x]]
  by (simp add: str_split_def split_from_Nil_iff)

lemma no_ws_run_append:
  "no_ws_run (a @ b) \<longleftrightarrow>
     no_ws_run a \<and> no_ws_run b \<and> (a = [] \<or> b = [] \<or> \<not> (isspace (last a) \<and> isspace (hd b)))"
proof (induction a)
  case Nil
  then show ?case by simp
next
  case (Cons x a)
  show ?case
  proof (cases a)
    case Nil
    then show ?thesis by (cases b) auto
  next
    case (Cons z a')
    with Cons.IH show ?thesis by auto
  qed
qed

lemma ws_collapsed_space_between:
  "ws_collapsed (w @ CHR '' '' # J) \<longleftrightarrow>
     (w \<noteq> [] \<and> ws_collapsed w) \<and> (J \<noteq> [] \<and> ws_collapsed J)"
proof (cases "w = [] \<or> J = []")
  case True
  then show ?thesis
    by (auto simp: ws_collapsed_def isspace_space)
next
  case False
  then obtain x w' j J' where w: "w = x # w'" and J: "J = j # J'"
    by (cases w; cases J) auto
  have "no_ws_run (w @ CHR '' '' # J) \<longleftrightarrow>
      no_ws_run w \<and> no_ws_run J \<and> \<not> isspace (last w) \<and> \<not> isspace (hd J)"
    using no_ws_run_append [of w "CHR '' '' # J"] no_ws_run_append [of "[CHR '' '']" J] False
    by (auto simp: isspace_space)
  then show ?thesis
    using False by (auto simp: ws_collapsed_def w J)
qed

lemma str_join_Nil_iff: "str_join ts = [] \<longleftrightarrow> ts = [] \<or> ts = [[]]"
  by (induction ts rule: str_join.induct) auto

lemma str_join_ne_collapsed:
  "str_join (v # ws) \<noteq> [] \<and> ws_collapsed (str_join (v # ws)) \<longleftrightarrow>
     list_all (\<lambda>t. t \<noteq> [] \<and> ws_collapsed t) (v # ws)"
proof (induction ws arbitrary: v)
  case Nil
  then show ?case by simp
next
  case (Cons u r)
  have "str_join (v # u # r) = v @ CHR '' '' # str_join (u # r)" by simp
  then show ?case
    using Cons.IH [of u] by (simp only: ws_collapsed_space_between) auto
qed

lemma ws_collapsed_join_iff:
  "ws_collapsed (str_join ts) \<longleftrightarrow>
     list_all ws_collapsed ts \<and> (length ts \<le> 1 \<or> [] \<notin> set ts)"
proof (cases ts)
  case Nil
  then show ?thesis by (simp add: ws_collapsed_def)
next
  case (Cons t r)
  show ?thesis
  proof (cases r)
    case Nil
    with Cons show ?thesis by simp
  next
    case r: (Cons u r')
    have "ws_collapsed (str_join (t # u # r')) \<longleftrightarrow>
        (t \<noteq> [] \<and> ws_collapsed t) \<and> list_all (\<lambda>t. t \<noteq> [] \<and> ws_collapsed t) (u # r')"
      using str_join_ne_collapsed [of u r']
      by (simp only: str_join.simps ws_collapsed_space_between)
    then show ?thesis
      by (auto simp: Cons r list_all_iff)
  qed
qed

lemma ws_collapsed_only_spaces: "ws_collapsed x \<Longrightarrow> list_all isspace x \<Longrightarrow> x = []"
  by (cases x) (auto simp: ws_collapsed_def)

lemma split_from_skip:
  "list_all isspace sp \<Longrightarrow> split_from [] (sp @ cs) = split_from [] cs"
  by (induction sp) auto

lemma str_split_blank: "list_all isspace sp \<Longrightarrow> str_split sp = []"
  by (simp add: str_split_def split_from_Nil_iff)

lemma str_split_last_word:
  "list_all isspace sp \<Longrightarrow> is_word w \<Longrightarrow> str_split (sp @ w) = [w]"
  using split_from_word [of w "[]" "[]"]
  by (simp add: str_split_def split_from_skip is_word_def)

lemma str_split_first_word:
  "list_all isspace sp \<Longrightarrow> is_word w \<Longrightarrow> isspace c \<Longrightarrow>
     str_split (sp @ w @ c # rest) = w # str_split rest"
  using split_from_word [of w "[]" "c # rest"]
  by (simp add: str_split_def split_from_skip is_word_def)

lemma str_join_concat:
  "str_join ws = (case ws of [] \<Rightarrow> [] | w # r \<Rightarrow> w @ concat (map ((#) CHR '' '') r))"
  by (induction ws rule: str_join.induct) simp_all

lemma concat_split_from:
  "concat (split_from w cs) = w @ filter (\<lambda>c. \<not> isspace c) cs"
  by (induction cs arbitrary: w) auto

lemma filter_str_join_words:
  "list_all is_word ws \<Longrightarrow> filter (\<lambda>c. \<not> isspace c) (str_join ws) = concat ws"
proof (induction ws rule: str_join.induct)
  case 1
  then show ?case by simp
next
  case (2 w)
  then show ?case by (simp add: is_word_def list_all_iff)
next
  case (3 w v ws)
  then have "filter (\<lambda>c. \<not> isspace c) w = w"
    by (simp add: is_word_def list_all_iff)
  with 3 show ?case by (simp add: isspace_space)
qed

lemma str_join_words_spaces:
  "list_all is_word ws \<Longrightarrow> c \<in> set (str_join ws) \<Longrightarrow> isspace c \<Longrightarrow> c = CHR '' ''"
  by (induction ws rule: str_join.induct) (auto simp: is_word_def list_all_iff)

lemma collapse_keeps:
  "filter (\<lambda>c. \<not> isspace c) (str_join (str_split x)) = filter (\<lambda>c. \<not> isspace c) x
   \<and> (\<forall>c\<in>set (str_join (str_split x)). isspace c \<longrightarrow> c = CHR '' '')"
proof -
  have w: "list_all is_word (str_split x)"
    using split_from_words [of "[]" x] by (simp add: str_split_def)
  from filter_str_join_words [OF w] str_join_words_spaces [OF w] show ?thesis
    by (auto simp: str_split_def concat_split_from)
qed

section \<open>The requests a call issues\<close>

lemma request_loop_requests:
  "\<exists>k. requests (snd (request_loop env suppress sentence sents trees s))
       = requests s @ map (request_url env (service_url s)) (take k sents)"
proof (induction sents arbitrary: trees s)
  case Nil
  then show ?case by simp
next
  case (Cons sent rest)
  let ?url = "request_url env (service_url s) sent"
  define s1 where "s1 = s\<lparr>requests := requests s @ [?url]\<rparr>"
  show ?case
  proof (cases "handle env suppress sentence (urlopen_json env ?url)")
    case (Inl e)
    then have "requests (snd (request_loop env suppress sentence (sent # rest) trees s))
       = requests s @ map (request_url env (service_url s)) (take (Suc 0) (sent # rest))"
      by (simp add: Let_def)
    then show ?thesis by blast
  next
    case (Inr tree)
    from Cons.IH [of "trees @ [tree]" s1] obtain k where
      "requests (snd (request_loop env suppress sentence rest (trees @ [tree]) s1))
         = requests s1 @ map (request_url env (service_url s1)) (take k rest)"
      by blast
    with Inr have "requests (snd (request_loop env suppress sentence (sent # rest) trees s))
       = requests s @ map (request_url env (service_url s)) (take (Suc k) (sent # rest))"
      by (simp add: Let_def s1_def)
    then show ?thesis by blast
  qed
qed

lemma snd_case_result:
  "snd (case p of (Inl e, s3) \<Rightarrow> (Inl e, s3) | (Inr trees, s3) \<Rightarrow> (Inr (f trees), s3)) = snd p"
  by (cases p) (simp split: sum.splits)

lemma sentences2trees_requests:
  assumes ok: "shape_ok tokenised (heap s) sentences"
  shows "\<exists>k. requests (snd (sentences2trees env sentences suppress tokenised s))
       = requests s @ map (request_url env (service_url s))
           (take k (filter (\<lambda>x. x \<noteq> []) (normalised tokenised (heap s) sentences)))"
proof (cases "suppress \<or> [] \<notin> set (normalised tokenised (heap s) sentences)")
  case True
  let ?norm = "normalised tokenised (heap s) sentences"
  from sentences2trees_run [OF ok True, of env] obtain s2 where
    u2: "service_url s2 = service_url s" and r2: "requests s2 = requests s" and
    run: "sentences2trees env sentences suppress tokenised s =
       (case request_loop env suppress (last_bound None ?norm)
               (filter (\<lambda>x. x \<noteq> []) ?norm) [] s2 of
          (Inl e, s3) \<Rightarrow> (Inl e, s3)
        | (Inr trees, s3) \<Rightarrow> (Inr (insert_loop (blank_positions 0 ?norm) trees), s3))"
    by blast
  from request_loop_requests [of env suppress "last_bound None ?norm"
      "filter (\<lambda>x. x \<noteq> []) ?norm" "[]" s2]
  show ?thesis by (simp only: run snd_case_result u2 r2)
next
  case False
  then have b: "[] \<in> set (normalised tokenised (heap s) sentences)" and ns: "suppress = False"
    by simp_all
  from sentences2trees_blank_raise [OF ok b, of env] obtain s1 where
    "requests s1 = requests s" and
    "sentences2trees env sentences False tokenised s =
       (Inl (ValueError_blank
          (length (takeWhile (\<lambda>x. x \<noteq> []) (normalised tokenised (heap s) sentences)))), s1)"
    by blast
  then have "requests (snd (sentences2trees env sentences suppress tokenised s))
       = requests s @ map (request_url env (service_url s))
           (take 0 (filter (\<lambda>x. x \<noteq> []) (normalised tokenised (heap s) sentences)))"
    by (simp add: ns)
  then show ?thesis by blast
qed

section \<open>The claims\<close>

text \<open>
  C1: whenever \<^verbatim>\<open>sentences2trees\<close> returns a list, the list is as long as the input
  batch, whatever the number of blank sentences and of failed requests.
\<close>

theorem output_length:
  "sentences2trees env sentences suppress_exceptions tokenised s = (Inr out, s')
     \<Longrightarrow> length out = length (items (heap s) sentences)"
proof -
  assume ret: "sentences2trees env sentences suppress_exceptions tokenised s = (Inr out, s')"
  from sentences2trees_returns [OF ret]
  have "map Inr out =
         map (\<lambda>x. if x = [] then Inr None
                  else outcome env suppress_exceptions
                         (last_bound None (normalised tokenised (heap s) sentences))
                         (service_url s) x)
           (normalised tokenised (heap s) sentences)"
    by (rule conjunct1 [OF conjunct2])
  from arg_cong [OF this, of length]
  have "length out = length (normalised tokenised (heap s) sentences)"
    by (simp only: length_map)
  then show ?thesis by (simp add: normalised_def)
qed

theorem output_length_witness:
  "fst (sentences2trees example_env (PList 8) True False example_state) =
     Inr [None, None, None, Some ''S?sentence=hello'']
   \<and> length [None, None, None, Some ''S?sentence=hello''] =
       length (items (heap example_state) (PList 8))"
proof -
  have f: "fst (sentences2trees example_env (PList 8) True False example_state) =
     Inr [None, None, None, Some ''S?sentence=hello'']"
    by (simp add: run_defs)
  then have h: "sentences2trees example_env (PList 8) True False example_state =
     (Inr [None, None, None, Some ''S?sentence=hello''],
      snd (sentences2trees example_env (PList 8) True False example_state))"
    by (simp add: prod_eq_iff)
  from output_length [OF h] f show ?thesis by simp
qed

text \<open>
  C2: the \<^verbatim>\<open>WebParseError\<close> raised for an HTTP error status carries the status code, but
  its sentence is the value of \<^verbatim>\<open>sentence\<close>, the variable of the loop of line 104, which
  holds the last sentence of the batch, not the one whose request failed: for the batch
  \<^verbatim>\<open>["bad", "hello"]\<close> with status 500 for \<open>bad\<close> the error names \<open>hello\<close>.
\<close>

theorem web_parse_error_names_last_sentence:
  "fst (sentences2trees example_env (PList 4) False False example_state)
     = Inl (WebParseError ''hello'' 500)
   \<and> requests (snd (sentences2trees example_env (PList 4) False False example_state))
     = [''S?sentence=bad'']"
  by (simp add: run_defs)

text \<open>
  C3: when a well-shaped batch has a sentence that normalises to the empty string and
  \<^verbatim>\<open>suppress_exceptions\<close> is false, the call raises \<^verbatim>\<open>ValueError\<close> for the index of the
  first such sentence, and the list of requests is as it was before the call.
\<close>

theorem blank_sentence_raises:
  assumes ok: "shape_ok tokenised (heap s) sentences"
    and b: "[] \<in> set (normalised tokenised (heap s) sentences)"
  shows "\<exists>i s'. sentences2trees env sentences False tokenised s = (Inl (ValueError_blank i), s')
           \<and> i < length (normalised tokenised (heap s) sentences)
           \<and> normalised tokenised (heap s) sentences ! i = []
           \<and> (\<forall>j<i. normalised tokenised (heap s) sentences ! j \<noteq> [])
           \<and> requests s' = requests s"
proof -
  let ?norm = "normalised tokenised (heap s) sentences"
  let ?i = "length (takeWhile (\<lambda>x. x \<noteq> []) ?norm)"
  from sentences2trees_blank_raise [OF ok b, of env] obtain s' where
    r: "requests s' = requests s" and
    e: "sentences2trees env sentences False tokenised s = (Inl (ValueError_blank ?i), s')"
    by blast
  have lt: "?i < length ?norm"
  proof (rule ccontr)
    assume "\<not> ?i < length ?norm"
    with length_takeWhile_le [of "\<lambda>x. x \<noteq> []" ?norm] have "?i = length ?norm" by simp
    with takeWhile_eq_take [of "\<lambda>x. x \<noteq> []" ?norm]
    have "takeWhile (\<lambda>x. x \<noteq> []) ?norm = ?norm" by simp
    then have "\<forall>x\<in>set ?norm. x \<noteq> []" by (simp only: takeWhile_eq_all_conv)
    with b show False by blast
  qed
  have at: "?norm ! ?i = []"
    using nth_length_takeWhile [OF lt] by simp
  have before: "\<forall>j<?i. ?norm ! j \<noteq> []"
  proof (intro allI impI)
    fix j assume j: "j < ?i"
    then have "takeWhile (\<lambda>x. x \<noteq> []) ?norm ! j \<in> set (takeWhile (\<lambda>x. x \<noteq> []) ?norm)"
      by simp
    then have "takeWhile (\<lambda>x. x \<noteq> []) ?norm ! j \<noteq> []"
      by (auto dest: set_takeWhileD)
    with j show "?norm ! j \<noteq> []" by (simp add: takeWhile_nth)
  qed
  from e lt at before r show ?thesis by blast
qed

theorem blank_sentence_raises_witness:
  "fst (sentences2trees example_env (PList 0) False False example_state) = Inl (ValueError_blank 0)
   \<and> requests (snd (sentences2trees example_env (PList 0) False False example_state)) = []"
proof -
  have n: "normalised False (heap example_state) (PList 0) = ['''', ''hello'']"
    by (simp add: normalised_def items_def example_state_def str_split_def isspace_def)
  have ok: "shape_ok False (heap example_state) (PList 0)"
    by (simp add: shape_ok_def untokenised_batch_type_check_def isinstance_str_def
          example_state_def)
  have b: "[] \<in> set (normalised False (heap example_state) (PList 0))"
    by (simp add: n)
  from blank_sentence_raises [OF ok b, of example_env] obtain i s' where
    r: "sentences2trees example_env (PList 0) False False example_state
          = (Inl (ValueError_blank i), s')" and
    j: "\<forall>j<i. normalised False (heap example_state) (PList 0) ! j \<noteq> []" and
    q: "requests s' = requests example_state"
    by blast
  from j have "i = 0" by (cases i) (auto simp: n)
  with r q show ?thesis by (simp add: example_state_def)
qed



text \<open>
  C5: normalisation follows the \<^verbatim>\<open>tokenised\<close> flag. For a list of lists of strings with
  \<^verbatim>\<open>tokenised\<close> true, \<^verbatim>\<open>sentences\<close> is rebound to the list of the sentences' tokens
  joined with single spaces; for a list of strings with \<^verbatim>\<open>tokenised\<close> false, to the list
  of the strings split on whitespace and rejoined with single spaces. In both modes the
  requests of a call are, in order, those of the non-empty strings of that list: all of
  them when the call returns, a first part of them when it raises. Joining puts one space
  between consecutive tokens and nothing else. Splitting skips leading whitespace, takes
  each maximal run of non-whitespace characters as a word, and goes on after the
  whitespace character that ends it; so splitting and rejoining keeps every
  non-whitespace character in order, leaves the words as they were, and gives a
  whitespace-collapsed string whose only whitespace is single spaces. Both examples of the
  specification give \<open>I like tea\<close>, and so does a string with tabs and line breaks.
\<close>

theorem normalisation_follows_flag:
  "(tokenised_batch_type_check (heap s) sentences \<longrightarrow>
      (\<exists>a s1. normalise True sentences s = (Inr a, s1) \<and>
         map str_of (heap s1 a) =
           map (\<lambda>sentence. str_join (map str_of (items (heap s) sentence)))
             (items (heap s) sentences))
      \<and> (\<exists>k. requests (snd (sentences2trees env sentences suppress_exceptions True s)) =
            requests s @ map (request_url env (service_url s))
              (take k (filter (\<lambda>x. x \<noteq> [])
                 (map (\<lambda>sentence. str_join (map str_of (items (heap s) sentence)))
                    (items (heap s) sentences)))))
      \<and> (\<forall>out s'. sentences2trees env sentences suppress_exceptions True s = (Inr out, s') \<longrightarrow>
            requests s' = requests s @ map (request_url env (service_url s))
              (filter (\<lambda>x. x \<noteq> [])
                 (map (\<lambda>sentence. str_join (map str_of (items (heap s) sentence)))
                    (items (heap s) sentences)))))
   \<and> (untokenised_batch_type_check (heap s) sentences \<longrightarrow>
      (\<exists>a s1. normalise False sentences s = (Inr a, s1) \<and>
         map str_of (heap s1 a) =
           map (\<lambda>x. str_join (str_split (str_of x))) (items (heap s) sentences))
      \<and> (\<exists>k. requests (snd (sentences2trees env sentences suppress_exceptions False s)) =
            requests s @ map (request_url env (service_url s))
              (take k (filter (\<lambda>x. x \<noteq> [])
                 (map (\<lambda>x. str_join (str_split (str_of x))) (items (heap s) sentences)))))
      \<and> (\<forall>out s'. sentences2trees env sentences suppress_exceptions False s = (Inr out, s') \<longrightarrow>
            requests s' = requests s @ map (request_url env (service_url s))
              (filter (\<lambda>x. x \<noteq> [])
                 (map (\<lambda>x. str_join (str_split (str_of x))) (items (heap s) sentences)))))
   \<and> str_join ws = (case ws of [] \<Rightarrow> [] | t # r \<Rightarrow> t @ concat (map ((#) CHR '' '') r))
   \<and> (list_all isspace sp \<longrightarrow> str_split sp = [])
   \<and> (list_all isspace sp \<and> is_word w \<longrightarrow> str_split (sp @ w) = [w])
   \<and> (list_all isspace sp \<and> is_word w \<and> isspace c \<longrightarrow>
        str_split (sp @ w @ c # rest) = w # str_split rest)
   \<and> (list_all is_word ws \<longrightarrow> ws_collapsed (str_join ws) \<and> str_split (str_join ws) = ws)
   \<and> ws_collapsed (str_join (str_split x))
   \<and> str_split (str_join (str_split x)) = str_split x
   \<and> filter (\<lambda>c. \<not> isspace c) (str_join (str_split x)) = filter (\<lambda>c. \<not> isspace c) x
   \<and> (\<forall>c\<in>set (str_join (str_split x)). isspace c \<longrightarrow> c = CHR '' '')
   \<and> str_join [''I'', ''like'', ''tea''] = ''I like tea''
   \<and> str_join (str_split ''  I   like   tea  '') = ''I like tea''
   \<and> str_join (str_split (''a'' @ [CHR 0x09] @ ''b'')) = ''a b''
   \<and> str_join (str_split ([CHR 0x0A] @ '' I'' @ [CHR 0x09, CHR 0x0D] @ ''like  tea''
                              @ [CHR 0x0B])) = ''I like tea''"
proof -
  have tok: "(\<exists>a s1. normalise True sentences s = (Inr a, s1) \<and>
         map str_of (heap s1 a) = normalised True (heap s) sentences)
      \<and> (\<exists>k. requests (snd (sentences2trees env sentences suppress_exceptions True s)) =
            requests s @ map (request_url env (service_url s))
              (take k (filter (\<lambda>x. x \<noteq> []) (normalised True (heap s) sentences))))
      \<and> (\<forall>out s'. sentences2trees env sentences suppress_exceptions True s = (Inr out, s') \<longrightarrow>
            requests s' = requests s @ map (request_url env (service_url s))
              (filter (\<lambda>x. x \<noteq> []) (normalised True (heap s) sentences)))"
    if "tokenised_batch_type_check (heap s) sentences"
  proof -
    from that have ok: "shape_ok True (heap s) sentences" by (simp add: shape_ok_def)
    from normalise_shape_ok [OF ok]
    have "\<exists>a s1. normalise True sentences s = (Inr a, s1) \<and>
         map str_of (heap s1 a) = normalised True (heap s) sentences"
      by (auto simp: comp_def)
    moreover note sentences2trees_requests [OF ok, of env suppress_exceptions]
    moreover have "\<forall>out s'. sentences2trees env sentences suppress_exceptions True s = (Inr out, s')
        \<longrightarrow> requests s' = requests s @ map (request_url env (service_url s))
              (filter (\<lambda>x. x \<noteq> []) (normalised True (heap s) sentences))"
      using sentences2trees_returns [of env sentences suppress_exceptions True s] by blast
    ultimately show ?thesis by blast
  qed
  have untok: "(\<exists>a s1. normalise False sentences s = (Inr a, s1) \<and>
         map str_of (heap s1 a) = normalised False (heap s) sentences)
      \<and> (\<exists>k. requests (snd (sentences2trees env sentences suppress_exceptions False s)) =
            requests s @ map (request_url env (service_url s))
              (take k (filter (\<lambda>x. x \<noteq> []) (normalised False (heap s) sentences))))
      \<and> (\<forall>out s'. sentences2trees env sentences suppress_exceptions False s = (Inr out, s') \<longrightarrow>
            requests s' = requests s @ map (request_url env (service_url s))
              (filter (\<lambda>x. x \<noteq> []) (normalised False (heap s) sentences)))"
    if "untokenised_batch_type_check (heap s) sentences"
  proof -
    from that have ok: "shape_ok False (heap s) sentences" by (simp add: shape_ok_def)
    from normalise_shape_ok [OF ok]
    have "\<exists>a s1. normalise False sentences s = (Inr a, s1) \<and>
         map str_of (heap s1 a) = normalised False (heap s) sentences"
      by (auto simp: comp_def)
    moreover note sentences2trees_requests [OF ok, of env suppress_exceptions]
    moreover have "\<forall>out s'. sentences2trees env sentences suppress_exceptions False s = (Inr out, s')
        \<longrightarrow> requests s' = requests s @ map (request_url env (service_url s))
              (filter (\<lambda>x. x \<noteq> []) (normalised False (heap s) sentences))"
      using sentences2trees_returns [of env sentences suppress_exceptions False s] by blast
    ultimately show ?thesis by blast
  qed
  have nt: "normalised True (heap s) sentences =
      map (\<lambda>sentence. str_join (map str_of (items (heap s) sentence))) (items (heap s) sentences)"
    and nu: "normalised False (heap s) sentences =
      map (\<lambda>x. str_join (str_split (str_of x))) (items (heap s) sentences)"
    by (simp_all add: normalised_def)
  have j: "str_join ws = (case ws of [] \<Rightarrow> [] | t # r \<Rightarrow> t @ concat (map ((#) CHR '' '') r))"
    by (rule str_join_concat)
  have w: "list_all is_word ws \<longrightarrow> ws_collapsed (str_join ws) \<and> str_split (str_join ws) = ws"
    using str_join_words [of ws] by (simp add: str_split_def)
  have e1: "str_join [''I'', ''like'', ''tea''] = ''I like tea''" by simp
  have e2: "str_join (str_split ''  I   like   tea  '') = ''I like tea''"
    by (simp add: str_split_def isspace_def)
  have e3: "str_join (str_split (''a'' @ [CHR 0x09] @ ''b'')) = ''a b''"
    by (simp add: str_split_def isspace_def)
  have e4: "str_join (str_split ([CHR 0x0A] @ '' I'' @ [CHR 0x09, CHR 0x0D] @ ''like  tea''
                              @ [CHR 0x0B])) = ''I like tea''"
    by (simp add: str_split_def isspace_def)
  from tok [unfolded nt] untok [unfolded nu] j w e1 e2 e3 e4
    str_split_blank [of sp] str_split_last_word [of sp w]
    str_split_first_word [of sp w c rest] collapse_collapsed [of x] collapse_keeps [of x]
  show ?thesis by blast
qed

theorem normalisation_follows_flag_witness:
  "fst (normalise True (PList 2) example_state) = Inr 10
   \<and> map str_of (heap (snd (normalise True (PList 2) example_state)) 10) = [''I like tea'']
   \<and> fst (normalise False (PList 1) example_state) = Inr 11
   \<and> map str_of (heap (snd (normalise False (PList 1) example_state)) 11) = [''I like tea'']
   \<and> requests (snd (sentences2trees example_env (PList 2) False True example_state))
       = [''S?sentence=I+like+tea'']
   \<and> requests (snd (sentences2trees example_env (PList 1) False False example_state))
       = [''S?sentence=I+like+tea'']
   \<and> ws_collapsed ''I like tea''
   \<and> str_split [CHR 0x09, CHR '' ''] = []
   \<and> str_split ([CHR 0x09, CHR '' ''] @ ''tea'') = [''tea'']
   \<and> str_split ([CHR 0x09, CHR '' ''] @ ''I'' @ CHR 0x0A # ''like tea'')
       = ''I'' # str_split ''like tea''"
proof -
  note t = normalisation_follows_flag [where s = example_state and sentences = "PList 2"
      and env = example_env and suppress_exceptions = False
      and ws = "[''I'', ''like'', ''tea'']" and x = "''  I   like   tea  ''"
      and sp = "[CHR 0x09, CHR '' '']" and w = "''I''" and c = "CHR 0x0A" and rest = "''like tea''"]
  note u = normalisation_follows_flag [where s = example_state and sentences = "PList 1"
      and env = example_env and suppress_exceptions = False
      and ws = "[''I'', ''like'', ''tea'']" and x = "''  I   like   tea  ''"
      and sp = "[CHR 0x09, CHR '' '']" and w = "''tea''" and c = "CHR 0x0A" and rest = "''like tea''"]
  have tc: "tokenised_batch_type_check (heap example_state) (PList 2)"
    by (simp add: tokenised_batch_type_check_def tokenised_sentence_type_check_def
          isinstance_str_def example_state_def)
  have uc: "untokenised_batch_type_check (heap example_state) (PList 1)"
    by (simp add: untokenised_batch_type_check_def isinstance_str_def example_state_def)
  have ws: "list_all is_word [''I'', ''like'', ''tea'']"
    by (simp add: is_word_def isspace_def)
  have sp: "list_all isspace [CHR 0x09, CHR '' '']"
    by (simp add: isspace_def)
  have wI: "is_word ''I''" and wt: "is_word ''tea''"
    by (simp_all add: is_word_def isspace_def)
  have nl: "isspace (CHR 0x0A)"
    by (simp add: isspace_def)
  have ft: "fst (normalise True (PList 2) example_state) = Inr 10"
    by (simp add: normalise_def tokenised_batch_type_check_def
          tokenised_sentence_type_check_def isinstance_str_def new_list_def items_def
          example_state_def)
  have fu: "fst (normalise False (PList 1) example_state) = Inr 11"
    by (simp add: normalise_def untokenised_batch_type_check_def isinstance_str_def
          new_list_def items_def example_state_def)
  have vt: "map (\<lambda>sentence. str_join (map str_of (items (heap example_state) sentence)))
             (items (heap example_state) (PList 2)) = [''I like tea'']"
    by (simp add: items_def example_state_def)
  have vu: "map (\<lambda>x. str_join (str_split (str_of x))) (items (heap example_state) (PList 1))
             = [''I like tea'']"
    by (simp add: items_def example_state_def str_split_def isspace_def)
  have url: "requests example_state @ map (request_url example_env (service_url example_state))
      (filter (\<lambda>x. x \<noteq> []) [''I like tea'']) = [''S?sentence=I+like+tea'']"
    by (simp add: example_defs)
  have rt: "sentences2trees example_env (PList 2) False True example_state
      = (Inr [Some ''S?sentence=I+like+tea''],
         snd (sentences2trees example_env (PList 2) False True example_state))"
    by (simp add: prod_eq_iff) (simp add: run_defs)
  have ru: "sentences2trees example_env (PList 1) False False example_state
      = (Inr [Some ''S?sentence=I+like+tea''],
         snd (sentences2trees example_env (PList 1) False False example_state))"
    by (simp add: prod_eq_iff) (simp add: run_defs)
  note tA = t [THEN conjunct1, THEN mp, OF tc]
  note uB = u [THEN conjunct2, THEN conjunct1, THEN mp, OF uc]
  from tA [THEN conjunct1] obtain a s1 where
    na: "normalise True (PList 2) example_state = (Inr a, s1)" and
    ma: "map str_of (heap s1 a) =
           map (\<lambda>sentence. str_join (map str_of (items (heap example_state) sentence)))
             (items (heap example_state) (PList 2))"
    by blast
  from na have s1: "snd (normalise True (PList 2) example_state) = s1"
    by (simp only: snd_conv)
  from na ft have a10: "a = 10"
    by (simp only: fst_conv sum.inject)
  from ma have A: "map str_of (heap (snd (normalise True (PList 2) example_state)) 10)
      = [''I like tea'']"
    by (simp only: s1 a10 vt)
  from uB [THEN conjunct1] obtain b s2 where
    nb: "normalise False (PList 1) example_state = (Inr b, s2)" and
    mb: "map str_of (heap s2 b) = map (\<lambda>x. str_join (str_split (str_of x)))
             (items (heap example_state) (PList 1))"
    by blast
  from nb have s2: "snd (normalise False (PList 1) example_state) = s2"
    by (simp only: snd_conv)
  from nb fu have b11: "b = 11"
    by (simp only: fst_conv sum.inject)
  from mb have B: "map str_of (heap (snd (normalise False (PList 1) example_state)) 11)
      = [''I like tea'']"
    by (simp only: s2 b11 vu)
  from tA [THEN conjunct2, THEN conjunct2, THEN spec, THEN spec, THEN mp, OF rt]
  have C: "requests (snd (sentences2trees example_env (PList 2) False True example_state))
       = [''S?sentence=I+like+tea'']"
    by (simp only: vt url)
  from uB [THEN conjunct2, THEN conjunct2, THEN spec, THEN spec, THEN mp, OF ru]
  have D: "requests (snd (sentences2trees example_env (PList 1) False False example_state))
       = [''S?sentence=I+like+tea'']"
    by (simp only: vu url)
  note rest = t [THEN conjunct2, THEN conjunct2, THEN conjunct2]
  from rest [THEN conjunct1, THEN mp, OF sp]
  have E: "str_split [CHR 0x09, CHR '' ''] = []" .
  from u [THEN conjunct2, THEN conjunct2, THEN conjunct2, THEN conjunct2, THEN conjunct1,
          THEN mp, OF conjI [OF sp wt]]
  have F: "str_split ([CHR 0x09, CHR '' ''] @ ''tea'') = [''tea'']" .
  from rest [THEN conjunct2, THEN conjunct2, THEN conjunct1, THEN mp,
             OF conjI [OF sp conjI [OF wI nl]]]
  have G: "str_split ([CHR 0x09, CHR '' ''] @ ''I'' @ CHR 0x0A # ''like tea'')
       = ''I'' # str_split ''like tea''" .
  from rest [THEN conjunct2, THEN conjunct2, THEN conjunct2, THEN conjunct1, THEN mp, OF ws]
  have "ws_collapsed (str_join [''I'', ''like'', ''tea''])" by (rule conjunct1)
  then have H: "ws_collapsed ''I like tea''" by simp
  from ft A fu B C D H E F G show ?thesis by (simp only: simp_thms)
qed

text \<open>
  C6, as stated, fails for tokenised input: the tokens are joined as they are. For the
  batch \<^verbatim>\<open>[[" "], ["a  b"]]\<close> the sentences submitted are a single space, which is not
  treated as empty, and \<open>a  b\<close> with its two spaces.
\<close>

theorem tokenised_sentences_not_collapsed:
  "fst (sentences2trees example_env (PList 5) True True example_state)
     = Inr [Some ''S?sentence=+'', Some ''S?sentence=a++b'']
   \<and> requests (snd (sentences2trees example_env (PList 5) True True example_state))
     = [''S?sentence=+'', ''S?sentence=a++b'']
   \<and> normalised True (heap example_state) (PList 5) = ['' '', ''a  b'']
   \<and> map (request_url example_env ''S'') ['' '', ''a  b'']
     = [''S?sentence=+'', ''S?sentence=a++b'']
   \<and> \<not> ws_collapsed '' '' \<and> \<not> ws_collapsed ''a  b''"
proof -
  have a: "fst (sentences2trees example_env (PList 5) True True example_state)
     = Inr [Some ''S?sentence=+'', Some ''S?sentence=a++b'']"
    by (simp add: run_defs)
  have b: "requests (snd (sentences2trees example_env (PList 5) True True example_state))
     = [''S?sentence=+'', ''S?sentence=a++b'']"
    by (simp add: run_defs)
  have c: "normalised True (heap example_state) (PList 5) = ['' '', ''a  b'']"
    by (simp add: normalised_def items_def example_state_def)
  have d: "map (request_url example_env ''S'') ['' '', ''a  b'']
     = [''S?sentence=+'', ''S?sentence=a++b'']"
    by (simp add: example_defs)
  have e: "\<not> ws_collapsed '' ''" "\<not> ws_collapsed ''a  b''"
    by (simp_all add: ws_collapsed_def isspace_def)
  from a b c d e show ?thesis by (simp only: simp_thms)
qed

text \<open>
  C6, amended: for a list of strings with \<^verbatim>\<open>tokenised\<close> false, and for a list of lists of
  strings with \<^verbatim>\<open>tokenised\<close> true in which every token is whitespace-collapsed and no
  sentence of two or more tokens has an empty token, every sentence submitted to the
  network is non-empty and whitespace-collapsed, and a sentence that normalises to
  whitespace only normalises to the empty string. The condition on the tokens is exact:
  tokens joined with single spaces form a whitespace-collapsed string if and only if they
  meet it. With \<^verbatim>\<open>tokenised\<close> false a sentence normalises to the empty string exactly when
  it consists of whitespace only; with \<^verbatim>\<open>tokenised\<close> true exactly when it has no token or
  its only token is the empty string.
\<close>

theorem submitted_sentences_collapsed:
  assumes ok: "shape_ok tokenised (heap s) sentences"
    and toks: "tokenised \<longrightarrow>
      (\<forall>sentence\<in>set (items (heap s) sentences).
         list_all ws_collapsed (map str_of (items (heap s) sentence))
         \<and> (length (items (heap s) sentence) \<le> 1
              \<or> [] \<notin> set (map str_of (items (heap s) sentence))))"
  shows "(\<exists>sents. requests (snd (sentences2trees env sentences suppress_exceptions tokenised s))
            = requests s @ map (request_url env (service_url s)) sents
          \<and> (\<forall>x\<in>set sents. x \<noteq> [] \<and> ws_collapsed x))
     \<and> (\<forall>x\<in>set (normalised tokenised (heap s) sentences). list_all isspace x \<longrightarrow> x = [])
     \<and> (\<not> tokenised \<longrightarrow>
          (\<forall>i<length (items (heap s) sentences).
             (normalised tokenised (heap s) sentences ! i = [])
               = list_all isspace (str_of (items (heap s) sentences ! i))))
     \<and> (tokenised \<longrightarrow>
          (\<forall>i<length (items (heap s) sentences).
             (normalised tokenised (heap s) sentences ! i = [])
               = (map str_of (items (heap s) (items (heap s) sentences ! i)) = []
                  \<or> map str_of (items (heap s) (items (heap s) sentences ! i)) = [[]])))
     \<and> ws_collapsed (str_join ts)
         = (list_all ws_collapsed ts \<and> (length ts \<le> 1 \<or> [] \<notin> set ts))"
proof (intro conjI)
  let ?norm = "normalised tokenised (heap s) sentences"
  have col: "\<forall>x\<in>set ?norm. ws_collapsed x"
  proof (cases tokenised)
    case True
    with toks show ?thesis
      by (auto simp: normalised_def ws_collapsed_join_iff)
  next
    case False
    then show ?thesis
      by (auto simp: normalised_def collapse_collapsed)
  qed
  from sentences2trees_requests [OF ok, of env suppress_exceptions] obtain k where
    k: "requests (snd (sentences2trees env sentences suppress_exceptions tokenised s))
       = requests s @ map (request_url env (service_url s))
           (take k (filter (\<lambda>x. x \<noteq> []) ?norm))"
    by blast
  have "\<forall>x\<in>set (take k (filter (\<lambda>x. x \<noteq> []) ?norm)). x \<noteq> [] \<and> ws_collapsed x"
    using col by (auto dest!: in_set_takeD)
  with k show "\<exists>sents. requests (snd (sentences2trees env sentences suppress_exceptions tokenised s))
            = requests s @ map (request_url env (service_url s)) sents
          \<and> (\<forall>x\<in>set sents. x \<noteq> [] \<and> ws_collapsed x)"
    by blast
  show "\<forall>x\<in>set ?norm. list_all isspace x \<longrightarrow> x = []"
    using col by (auto dest: ws_collapsed_only_spaces)
next
  show "\<not> tokenised \<longrightarrow>
          (\<forall>i<length (items (heap s) sentences).
             (normalised tokenised (heap s) sentences ! i = [])
               = list_all isspace (str_of (items (heap s) sentences ! i)))"
    by (simp add: normalised_def collapse_collapsed)
next
  show "tokenised \<longrightarrow>
          (\<forall>i<length (items (heap s) sentences).
             (normalised tokenised (heap s) sentences ! i = [])
               = (map str_of (items (heap s) (items (heap s) sentences ! i)) = []
                  \<or> map str_of (items (heap s) (items (heap s) sentences ! i)) = [[]]))"
    by (simp add: normalised_def str_join_Nil_iff)
next
  show "ws_collapsed (str_join ts)
         = (list_all ws_collapsed ts \<and> (length ts \<le> 1 \<or> [] \<notin> set ts))"
    by (rule ws_collapsed_join_iff)
qed

theorem submitted_sentences_collapsed_witness:
  "normalised False (heap example_state) (PList 8) ! 2 = []
   \<and> requests (snd (sentences2trees example_env (PList 8) True False example_state))
       = [''S?sentence=bad'', ''S?sentence=hello'']
   \<and> ws_collapsed ''bad'' \<and> ws_collapsed ''hello''
   \<and> requests (snd (sentences2trees example_env (PList 2) True True city_state))
       = [''S?sentence=I+like+New+York'']
   \<and> ws_collapsed ''I like New York''
   \<and> \<not> ws_collapsed (str_join [''a'', ''''])"
proof -
  have ok8: "shape_ok False (heap example_state) (PList 8)"
    by (simp add: shape_ok_def untokenised_batch_type_check_def isinstance_str_def
          example_state_def)
  have w8: "False \<longrightarrow>
      (\<forall>sentence\<in>set (items (heap example_state) (PList 8)).
         list_all ws_collapsed (map str_of (items (heap example_state) sentence))
         \<and> (length (items (heap example_state) sentence) \<le> 1
              \<or> [] \<notin> set (map str_of (items (heap example_state) sentence))))"
    by simp
  have ok2: "shape_ok True (heap city_state) (PList 2)"
    by (simp add: shape_ok_def tokenised_batch_type_check_def
          tokenised_sentence_type_check_def isinstance_str_def example_state_def
          city_state_def)
  have w2: "True \<longrightarrow>
      (\<forall>sentence\<in>set (items (heap city_state) (PList 2)).
         list_all ws_collapsed (map str_of (items (heap city_state) sentence))
         \<and> (length (items (heap city_state) sentence) \<le> 1
              \<or> [] \<notin> set (map str_of (items (heap city_state) sentence))))"
    by (simp add: items_def example_state_def city_state_def ws_collapsed_def isspace_def)
  have i8: "items (heap example_state) (PList 8)
      = [PStr '''', PStr ''bad'', PStr '' '', PStr ''hello'']"
    by (simp add: items_def example_state_def)
  note t8 = submitted_sentences_collapsed [OF ok8 w8, of example_env True "[''a'', '''']"]
  note t2 = submitted_sentences_collapsed [OF ok2 w2, of example_env True
      "[''I'', ''like'', ''New York'']"]
  from t8 have "(normalised False (heap example_state) (PList 8) ! 2 = [])
      = list_all isspace (str_of (items (heap example_state) (PList 8) ! 2))"
    by (simp add: i8)
  then have a: "normalised False (heap example_state) (PList 8) ! 2 = []"
    by (simp add: i8 isspace_def)
  from t8 have n: "\<not> ws_collapsed (str_join [''a'', ''''])"
    by simp
  from t2 have "ws_collapsed (str_join [''I'', ''like'', ''New York''])"
    by (simp add: ws_collapsed_def isspace_def)
  then have y: "ws_collapsed ''I like New York''" by simp
  have b: "requests (snd (sentences2trees example_env (PList 8) True False example_state))
       = [''S?sentence=bad'', ''S?sentence=hello'']"
    by (simp add: run_defs)
  have c: "ws_collapsed ''bad''" "ws_collapsed ''hello''"
    by (simp_all add: ws_collapsed_def isspace_def)
  have d: "requests (snd (sentences2trees example_env (PList 2) True True city_state))
       = [''S?sentence=I+like+New+York'']"
    by (simp add: run_defs city_state_def)
  from a b c d y n show ?thesis by (simp only: simp_thms)
qed

text \<open>
  C7: when \<^verbatim>\<open>tokenised\<close> is true and the input is not a list of lists of strings, or
  \<^verbatim>\<open>tokenised\<close> is false and the input is not a list of strings, the call raises the
  \<^verbatim>\<open>ValueError\<close> of the type check and leaves the state as it was: no request has been
  issued. The value of \<^verbatim>\<open>suppress_exceptions\<close> plays no part.
\<close>

theorem shape_mismatch_raises:
  assumes "(tokenised \<and> \<not> (\<exists>a. sentences = PList a \<and>
               (\<forall>x\<in>set (heap s a). \<exists>b. x = PList b \<and> (\<forall>t\<in>set (heap s b). \<exists>w. t = PStr w))))
         \<or> (\<not> tokenised \<and> \<not> (\<exists>a. sentences = PList a \<and>
               (\<forall>x\<in>set (heap s a). \<exists>w. x = PStr w)))"
  shows "sentences2trees env sentences suppress_exceptions tokenised s =
           (Inl (if tokenised then ValueError_not_tokenised else ValueError_not_untokenised), s)"
proof -
  from assms have "\<not> shape_ok tokenised (heap s) sentences"
    by (cases tokenised)
       (simp_all add: shape_ok_def tokenised_batch_type_check_iff
          untokenised_batch_type_check_iff)
  then show ?thesis by (rule sentences2trees_shape_bad)
qed

theorem shape_mismatch_raises_witness:
  "sentences2trees example_env (PList 0) True True example_state =
     (Inl ValueError_not_tokenised, example_state)
   \<and> sentences2trees example_env (PList 0) False True example_state =
     (Inl ValueError_not_tokenised, example_state)
   \<and> sentences2trees example_env (PList 2) True False example_state =
     (Inl ValueError_not_untokenised, example_state)
   \<and> sentences2trees example_env (PStr ''hello'') False False example_state =
     (Inl ValueError_not_untokenised, example_state)"
proof -
  have a: "(True \<and> \<not> (\<exists>a. PList 0 = PList a \<and>
               (\<forall>x\<in>set (heap example_state a). \<exists>b. x = PList b \<and>
                  (\<forall>t\<in>set (heap example_state b). \<exists>w. t = PStr w))))
         \<or> (\<not> True \<and> \<not> (\<exists>a. PList 0 = PList a \<and>
               (\<forall>x\<in>set (heap example_state a). \<exists>w. x = PStr w)))"
    by (simp add: example_state_def)
  have b: "(False \<and> \<not> (\<exists>a. PList 2 = PList a \<and>
               (\<forall>x\<in>set (heap example_state a). \<exists>b. x = PList b \<and>
                  (\<forall>t\<in>set (heap example_state b). \<exists>w. t = PStr w))))
         \<or> (\<not> False \<and> \<not> (\<exists>a. PList 2 = PList a \<and>
               (\<forall>x\<in>set (heap example_state a). \<exists>w. x = PStr w)))"
    by (simp add: example_state_def)
  have c: "(False \<and> \<not> (\<exists>a. PStr ''hello'' = PList a \<and>
               (\<forall>x\<in>set (heap example_state a). \<exists>b. x = PList b \<and>
                  (\<forall>t\<in>set (heap example_state b). \<exists>w. t = PStr w))))
         \<or> (\<not> False \<and> \<not> (\<exists>a. PStr ''hello'' = PList a \<and>
               (\<forall>x\<in>set (heap example_state a). \<exists>w. x = PStr w)))"
    by simp
  from shape_mismatch_raises [OF a, of example_env True]
       shape_mismatch_raises [OF a, of example_env False]
       shape_mismatch_raises [OF b, of example_env True]
       shape_mismatch_raises [OF c, of example_env False]
  show ?thesis by simp
qed

text \<open>
  C8: with \<^verbatim>\<open>suppress_exceptions\<close> true a failure for one sentence should give \<open>None\<close> at
  its position, the call going on with the next sentence. The handlers of lines 122 to 131
  do so for a failure of \<^verbatim>\<open>urlopen\<close> or \<^verbatim>\<open>json.load\<close>, but line 133 is in the
  \<^verbatim>\<open>else\<close> clause, outside the handlers: for the batch \<^verbatim>\<open>["bad", "odd", "tea"]\<close>, where the
  request for \<open>bad\<close> gets status 500 and \<^verbatim>\<open>CCGTree.from_json\<close> rejects the document sent for
  \<open>odd\<close>, the call with \<^verbatim>\<open>suppress_exceptions\<close> true raises the \<^verbatim>\<open>KeyError\<close> of
  \<^verbatim>\<open>from_json\<close>. No list is returned and \<open>tea\<close> is never requested.
\<close>

theorem from_json_failure_not_suppressed:
  "fst (sentences2trees example_env (PList 9) True False odd_state) = Inl (Other ''KeyError'')
   \<and> requests (snd (sentences2trees example_env (PList 9) True False odd_state))
       = [''S?sentence=bad'', ''S?sentence=odd'']
   \<and> urlopen_json example_env (request_url example_env ''S'' ''odd'') = Loaded ''S?sentence=odd''
   \<and> from_json example_env ''S?sentence=odd'' = Inl ''KeyError''"
proof -
  have a: "fst (sentences2trees example_env (PList 9) True False odd_state)
      = Inl (Other ''KeyError'')"
    by (simp add: run_defs odd_state_def)
  have b: "requests (snd (sentences2trees example_env (PList 9) True False odd_state))
       = [''S?sentence=bad'', ''S?sentence=odd'']"
    by (simp add: run_defs odd_state_def)
  have c: "urlopen_json example_env (request_url example_env ''S'' ''odd'')
      = Loaded ''S?sentence=odd''"
    by (simp add: example_defs)
  have d: "from_json example_env ''S?sentence=odd'' = Inl ''KeyError''"
    by (simp add: example_defs)
  from a b c d show ?thesis by (simp only: simp_thms)
qed



text \<open>
  C10: a call changes neither the caller's list, nor the lists it contains, nor
  \<^verbatim>\<open>self.service_url\<close>: every list object that existed before the call (every address below
  \<open>nxt s\<close>) has the same items afterwards, whether the call returns or raises. The
  deletions of line 112 act on the list created on line 95 or 102.
\<close>

theorem arguments_unchanged:
  "service_url (snd (sentences2trees env sentences suppress_exceptions tokenised s)) = service_url s
   \<and> (\<forall>b<nxt s. heap (snd (sentences2trees env sentences suppress_exceptions tokenised s)) b
                  = heap s b)"
proof -
  obtain r1 s1 where n: "normalise tokenised sentences s = (r1, s1)" by force
  note f1 = normalise_frame [OF n]
  show ?thesis
  proof (cases r1)
    case (Inl e)
    with n f1 show ?thesis by (simp add: sentences2trees_def)
  next
    case (Inr a)
    with f1 have a: "nxt s \<le> a" by simp
    show ?thesis
    proof (cases "find_empty suppress_exceptions 0 (map str_of (heap s1 a)) [] None")
      case (Inl e)
      with n Inr f1 show ?thesis by (simp add: sentences2trees_def)
    next
      case fe: (Inr p)
      obtain empty_indices sentence where p: "p = (empty_indices, sentence)" by force
      obtain r2 s2 where d: "del_loop a (rev empty_indices) s1 = (r2, s2)" by force
      note f2 = del_loop_frame [OF d]
      have h2: "\<forall>b<nxt s. heap s2 b = heap s b"
        using f1 f2 a by auto
      have u2: "service_url s2 = service_url s"
        using f1 f2 by simp
      show ?thesis
      proof (cases r2)
        case (Inl e)
        with n Inr fe p d h2 u2 show ?thesis by (simp add: sentences2trees_def)
      next
        case r2: (Inr u)
        obtain r3 s3 where
          l: "request_loop env suppress_exceptions sentence (map str_of (heap s2 a)) [] s2
                = (r3, s3)" by force
        note f3 = request_loop_frame [OF l]
        have "snd (sentences2trees env sentences suppress_exceptions tokenised s) = s3"
          using n Inr fe p d r2 l by (cases r3) (simp_all add: sentences2trees_def)
        with f3 h2 u2 show ?thesis by simp
      qed
    qed
  qed
qed

theorem arguments_unchanged_witness:
  "heap (snd (sentences2trees example_env (PList 0) True False example_state)) 0
     = [PStr '''', PStr ''hello'']
   \<and> heap (snd (sentences2trees example_env (PList 0) True False example_state)) 11
     = [PStr ''hello'']
   \<and> service_url (snd (sentences2trees example_env (PList 0) True False example_state)) = ''S''
   \<and> service_url (snd (sentences2trees example_env (PList 0) True False
                          (init SERVICE_URL example_state))) = SERVICE_URL"
proof -
  have b: "(0::nat) < nxt example_state" by (simp add: example_state_def)
  have d: "heap (snd (sentences2trees example_env (PList 0) True False example_state)) 11
     = [PStr ''hello'']"
    by (simp add: run_defs)
  have i: "service_url (init SERVICE_URL example_state) = SERVICE_URL"
    by (simp add: init_def)
  from arguments_unchanged [of example_env "PList 0" True False "init SERVICE_URL example_state"]
  have e: "service_url (snd (sentences2trees example_env (PList 0) True False
                          (init SERVICE_URL example_state))) = SERVICE_URL"
    by (simp only: i)
  from arguments_unchanged [of example_env "PList 0" True False example_state] b d e
  show ?thesis by (simp add: example_state_def)
qed

end
